theory Spec2Isabelle
  imports Main "HOL-Library.Word" "HOL-Library.Monad_Syntax"
begin

unbundle bit_operations_syntax

section \<open>Bytes and 16-bit fields\<close>

text \<open>
  A byte of a packet is an \<open>8 word\<close>.  The 16- and 32-bit unsigned integers of the C
  code (\<open>uint16_t\<close>, \<open>uint32_t\<close>) are natural numbers with the wrap-around written
  out (\<open>mod 65536\<close>, \<open>mod 2 ^ 32\<close>) wherever the C arithmetic can reach it.
  The stack runs on a little-endian host: the code converts every multi-byte header field
  with \<open>swap16\<close>, and the position of the bit-fields \<open>hdr_len\<close> and \<open>version\<close>
  in the first header byte is that of a little-endian compiler.
\<close>

type_synonym byte = "8 word"

text \<open>
  Modelled from the spec: the macro \<open>swap16\<close> of utils.h (not under src/), the
  conversion between host order and the big-endian order of the wire: the low byte moves
  up, the second byte moves down, everything above bit 15 is dropped.
\<close>

definition swap16 :: "nat \<Rightarrow> nat" where
  "swap16 x = (x mod 256) * 256 + (x div 256) mod 256"

text \<open>\<open>((uint16_t *) p)[0]\<close> where \<open>p\<close> points at byte \<open>k\<close> of \<open>d\<close>.\<close>

definition load16 :: "byte list \<Rightarrow> nat \<Rightarrow> nat" where
  "load16 d k = unat (d ! k) + 256 * unat (d ! (k + 1))"

text \<open>Storing a \<open>uint16_t\<close> at byte \<open>k\<close>: the conversion to 16 bits, low byte first.\<close>

definition store16 :: "byte list \<Rightarrow> nat \<Rightarrow> nat \<Rightarrow> byte list" where
  "store16 d k v = d[k := of_nat (v mod 256), k + 1 := of_nat ((v div 256) mod 256)]"

section \<open>utils.c: checksum16\<close>

text \<open>
  Step 1, the \<open>for\<close> loop over \<open>i < len / 2\<close>: \<open>sum += data[i]\<close> in a
  \<open>uint32_t\<close>.
\<close>

definition sum_words :: "byte list \<Rightarrow> nat \<Rightarrow> nat" where
  "sum_words d n = fold (\<lambda>i s. (s + load16 d (2 * i)) mod 2 ^ 32) [0..<n] 0"

text \<open>Step 3, the \<open>while (sum >> 16)\<close> loop.\<close>

function fold_carry :: "nat \<Rightarrow> nat" where
  "fold_carry s =
     (if s div 65536 \<noteq> 0
      then fold_carry ((s mod 65536 + s div 65536) mod 2 ^ 32)
      else s)"
  by pat_completeness auto
termination
proof (relation "measure (\<lambda>s. s)")
  show "wf (measure (\<lambda>s::nat. s))" by simp
next
  fix s :: nat
  assume h: "s div 65536 \<noteq> 0"
  have "(s mod 65536 + s div 65536) mod 2 ^ 32 \<le> s mod 65536 + s div 65536"
    by (rule mod_less_eq_dividend)
  also have "\<dots> < s mod 65536 + 65536 * (s div 65536)"
    using h by (intro add_strict_left_mono) simp
  also have "\<dots> = s"
    by (rule mod_mult_div_eq)
  finally show "((s mod 65536 + s div 65536) mod 2 ^ 32, s) \<in> measure (\<lambda>s. s)"
    by simp
qed

declare fold_carry.simps [simp del]

text \<open>
  The whole function.  \<open>d\<close> is the region of \<open>len\<close> bytes that \<open>data\<close> points
  at, so \<open>len\<close> is \<open>length d\<close>.  The result is the \<open>uint16_t\<close> the function
  returns: the low 16 bits of the complement of the 32-bit sum.
\<close>

definition checksum16 :: "byte list \<Rightarrow> nat" where
  "checksum16 d =
     (let len = length d;
          s = sum_words d (len div 2);
          s = (if len mod 2 \<noteq> 0 then (s + unat (d ! (len - 1))) mod 2 ^ 32 else s);
          s = fold_carry s
      in (2 ^ 32 - 1 - s) mod 65536)"

section \<open>Packet buffers\<close>

text \<open>
  Modelled from the spec: the packet buffer \<open>buf_t\<close> and its operations (buf.h and
  buf.c are not under src/).  The spec describes a byte region with a movable window
  (offset and length) over a fixed capacity, with prepend-header, remove-header (advance
  the start), append-padding and remove-trailing-padding as window adjustments, not
  copies.  \<open>payload\<close> is the whole region, \<open>data\<close> the offset of the window in it
  (the C field is a pointer into the region) and \<open>len\<close> the length of the window.
  The spec does not say what an operation does when the region has no room for it; the
  model returns \<open>None\<close> there, and a function that needs the room returns \<open>None\<close>
  with it.
\<close>

record buf_t =
  payload :: "byte list"
  data :: nat
  len :: nat

definition window :: "buf_t \<Rightarrow> byte list" where
  "window b = take (len b) (drop (data b) (payload b))"

definition buf_ok :: "buf_t \<Rightarrow> bool" where
  "buf_ok b = (data b + len b \<le> length (payload b))"

definition buf_add_header :: "buf_t \<Rightarrow> nat \<Rightarrow> buf_t option" where
  "buf_add_header b n =
     (if data b < n then None else Some (b\<lparr>data := data b - n, len := len b + n\<rparr>))"

definition buf_remove_header :: "buf_t \<Rightarrow> nat \<Rightarrow> buf_t option" where
  "buf_remove_header b n =
     (if len b < n then None else Some (b\<lparr>data := data b + n, len := len b - n\<rparr>))"

definition buf_remove_padding :: "buf_t \<Rightarrow> nat \<Rightarrow> buf_t option" where
  "buf_remove_padding b n =
     (if len b < n then None else Some (b\<lparr>len := len b - n\<rparr>))"

text \<open>
  Modelled from the spec: \<open>buf_init\<close> of buf.c (not under src/) gives a buffer a window
  of \<open>n\<close> bytes.  \<open>room\<close> is the space the buffer keeps in front of the window for the
  headers of the lower layers.  The bytes of a fresh window are written as zero: every
  caller under src/ overwrites the whole window before it reads it.
\<close>

definition buf_init :: "nat \<Rightarrow> nat \<Rightarrow> buf_t" where
  "buf_init room n = \<lparr>payload = replicate (room + n) 0, data = room, len = n\<rparr>"

text \<open>\<open>memcpy(d + k, src, n)\<close> on the region \<open>d\<close>.\<close>

definition memcpy :: "byte list \<Rightarrow> nat \<Rightarrow> byte list \<Rightarrow> nat \<Rightarrow> byte list" where
  "memcpy d k src n = take k d @ take n src @ drop (k + n) d"

section \<open>utils.c: transport_checksum\<close>

text \<open>
  The IP addresses are passed to the C functions as pointers to four bytes; the model
  passes the four bytes the pointer designates when the function reads them.  In
  \<open>transport_checksum\<close> the source address is copied before any other byte of the
  pseudo-header is written, and the destination address is storage of the caller outside
  the twelve bytes in front of the segment.

  The fields of \<open>peso_hdr_t\<close>, packed: \<open>src_ip\<close> at 0, \<open>dst_ip\<close> at 4,
  \<open>placeholder\<close> at 8, \<open>protocol\<close> at 9, \<open>total_len16\<close> at 10.
\<close>

definition transport_checksum ::
  "nat \<Rightarrow> buf_t \<Rightarrow> byte list \<Rightarrow> byte list \<Rightarrow> (nat \<times> buf_t) option" where
  "transport_checksum protocol buf src_ip dst_ip =
     (let orig_buf_len = len buf in
      do {
        b1 \<leftarrow> buf_add_header buf 12;
        let h = data b1;
        let ip_hdr_backup = take 12 (drop h (payload b1));
        let p = memcpy (payload b1) h src_ip 4;
        let p = memcpy p (h + 4) dst_ip 4;
        let p = p[h + 8 := 0];
        let p = p[h + 9 := of_nat protocol];
        let p = store16 p (h + 10) (swap16 orig_buf_len);
        let b2 = b1\<lparr>payload := p\<rparr>;
        let checksum = checksum16 (window b2);
        let b3 = b2\<lparr>payload := memcpy (payload b2) h ip_hdr_backup 12\<rparr>;
        b4 \<leftarrow> buf_remove_header b3 12;
        Some (checksum, b4)
      })"

section \<open>Protocol constants\<close>

text \<open>
  Modelled from the spec: the constants of net.h, ip.h and icmp.h (not under src/), with
  the values of the spec's wire formats: IP version 4, a header of 5 words of 4 bytes
  (at least 20 bytes), fragment offsets in units of 8 bytes, TTL 64, TOS 0; protocol
  numbers ICMP 1 and UDP 17; ICMP destination unreachable is type 3, with code 2 for the
  protocol and 3 for the port.  The fragmentation threshold \<open>IP_MAX_PAYLOAD\<close> and
  the mask \<open>IP_MORE_FRAGMENT\<close> are parameters of the functions that use them, as
  are the local address \<open>net_if_ip\<close> and the header room of \<open>buf_init\<close>.
\<close>

definition IP_VERSION_4 :: nat where "IP_VERSION_4 = 4"
definition IP_HDR_LEN :: nat where "IP_HDR_LEN = 5"
definition IP_HDR_LEN_PER_BYTE :: nat where "IP_HDR_LEN_PER_BYTE = 4"
definition IP_MIN_HDR_LEN :: nat where "IP_MIN_HDR_LEN = 20"
definition IP_HDR_OFFSET_PER_BYTE :: nat where "IP_HDR_OFFSET_PER_BYTE = 8"
definition IP_DEFAULT_TTL :: nat where "IP_DEFAULT_TTL = 64"
definition IP_DEFAULT_TOS :: nat where "IP_DEFAULT_TOS = 0"
definition NET_IP_LEN :: nat where "NET_IP_LEN = 4"
definition NET_PROTOCOL_ICMP :: nat where "NET_PROTOCOL_ICMP = 1"
definition NET_PROTOCOL_UDP :: nat where "NET_PROTOCOL_UDP = 17"
definition ICMP_TYPE_UNREACH :: nat where "ICMP_TYPE_UNREACH = 3"
definition ICMP_CODE_PROTOCOL_UNREACH :: nat where "ICMP_CODE_PROTOCOL_UNREACH = 2"
definition ICMP_CODE_PORT_UNREACH :: nat where "ICMP_CODE_PORT_UNREACH = 3"

text \<open>\<open>a - b\<close> on \<open>size_t\<close> (64 bits): it wraps around below zero.\<close>

definition size_sub :: "nat \<Rightarrow> nat \<Rightarrow> nat" where
  "size_sub a b = (a + 2 ^ 64 - b) mod 2 ^ 64"

definition memset :: "byte list \<Rightarrow> nat \<Rightarrow> byte \<Rightarrow> nat \<Rightarrow> byte list" where
  "memset d k v n = take k d @ replicate n v @ drop (k + n) d"

text \<open>
  The first byte of \<open>ip_hdr_t\<close> holds two bit-fields of four bits: \<open>hdr_len\<close>
  in the low nibble and \<open>version\<close> in the high one.  Reading and assigning a field
  leaves the other one as it is.
\<close>

definition get_version :: "byte \<Rightarrow> nat" where
  "get_version b = unat b div 16"

definition get_hdr_len :: "byte \<Rightarrow> nat" where
  "get_hdr_len b = unat b mod 16"

definition set_version :: "byte \<Rightarrow> nat \<Rightarrow> byte" where
  "set_version b v = of_nat ((v mod 16) * 16 + unat b mod 16)"

definition set_hdr_len :: "byte \<Rightarrow> nat \<Rightarrow> byte" where
  "set_hdr_len b l = of_nat ((unat b div 16) * 16 + l mod 16)"

section \<open>icmp.c: icmp_unreachable\<close>

text \<open>
  The header \<open>icmp_hdr_t\<close>: \<open>type\<close> at 0, \<open>code\<close> at 1, \<open>checksum16\<close> at 2,
  \<open>id16\<close> at 4, \<open>seq16\<close> at 6.  \<open>msg\<close> is the window of \<open>txbuf\<close>,
  which the code fills in place and the model puts back when it is filled.  The function
  ends with one call of \<open>ip_out\<close>; the model returns the arguments of that call: the
  buffer \<open>txbuf\<close>, the address and the protocol.
\<close>

definition icmp_unreachable ::
  "nat \<Rightarrow> buf_t \<Rightarrow> byte list \<Rightarrow> nat \<Rightarrow> buf_t \<times> byte list \<times> nat" where
  "icmp_unreachable room recv_buf src_ip code =
     (let rd = data recv_buf;
          rp = payload recv_buf;
          ip_hdr_len = get_hdr_len (rp ! rd) * IP_HDR_LEN_PER_BYTE;
          icmp_data_len = ip_hdr_len + 8;
          icmp_total_len = 8 + icmp_data_len;
          txbuf = buf_init room icmp_total_len;
          msg = take icmp_total_len (drop (data txbuf) (payload txbuf));
          msg = msg[0 := of_nat ICMP_TYPE_UNREACH];
          msg = msg[1 := of_nat code];
          msg = store16 msg 2 0;
          msg = store16 msg 4 0;
          msg = store16 msg 6 0;
          icmp_data = 8;
          msg = memcpy msg icmp_data (drop rd rp) ip_hdr_len;
          payload_copy_len =
            (if size_sub (len recv_buf) ip_hdr_len \<ge> 8 then 8
             else size_sub (len recv_buf) ip_hdr_len);
          msg = memcpy msg (icmp_data + ip_hdr_len) (drop (rd + ip_hdr_len) rp)
                  payload_copy_len;
          msg = (if payload_copy_len < 8
                 then memset msg (icmp_data + ip_hdr_len + payload_copy_len) 0
                        (8 - payload_copy_len)
                 else msg);
          msg = store16 msg 2 (checksum16 (take (len txbuf) msg));
          txbuf = txbuf\<lparr>payload := memcpy (payload txbuf) (data txbuf) msg icmp_total_len\<rparr>
      in (txbuf, src_ip, NET_PROTOCOL_ICMP))"

section \<open>ip.c: ip_in\<close>

text \<open>
  The header \<open>ip_hdr_t\<close>: version and header length in byte 0, \<open>tos\<close> at 1,
  \<open>total_len16\<close> at 2, \<open>id16\<close> at 4, \<open>flags_fragment16\<close> at 6, \<open>ttl\<close> at
  8, \<open>protocol\<close> at 9, \<open>hdr_checksum16\<close> at 10, \<open>src_ip\<close> at 12, \<open>dst_ip\<close>
  at 16.

  \<open>ip_check\<close> is steps 1 to 3 of \<open>ip_in\<close>: the checks of the length, the version,
  the header length, the total length and the header checksum.  It returns \<open>Inl\<close>
  with the check that made \<open>ip_in\<close> return and the buffer as that return leaves it, or
  \<open>Inr\<close> with the buffer, \<open>actual_hdr_len\<close> and \<open>ip_total_len\<close>.
\<close>

datatype ip_drop =
  Drop_short | Drop_version | Drop_hdr_len | Drop_total_len | Drop_checksum | Drop_dst

definition ip_check :: "buf_t \<Rightarrow> (ip_drop \<times> buf_t) + (buf_t \<times> nat \<times> nat)" where
  "ip_check buf =
     (if len buf < IP_MIN_HDR_LEN then Inl (Drop_short, buf)
      else
        let h = data buf;
            version = get_version (payload buf ! h);
            hdr_len = get_hdr_len (payload buf ! h)
        in
        if version \<noteq> IP_VERSION_4 then Inl (Drop_version, buf)
        else if hdr_len < IP_HDR_LEN \<or> hdr_len > 15 then Inl (Drop_hdr_len, buf)
        else
          let actual_hdr_len = hdr_len * IP_HDR_LEN_PER_BYTE;
              ip_total_len = swap16 (load16 (payload buf) (h + 2))
          in
          if ip_total_len > len buf \<or> ip_total_len < actual_hdr_len
          then Inl (Drop_total_len, buf)
          else
            let orig_checksum = load16 (payload buf) (h + 10);
                buf = buf\<lparr>payload := store16 (payload buf) (h + 10) 0\<rparr>;
                calc_checksum = checksum16 (take actual_hdr_len (drop h (payload buf)))
            in
            if calc_checksum \<noteq> orig_checksum then Inl (Drop_checksum, buf)
            else
              Inr (buf\<lparr>payload := store16 (payload buf) (h + 10) orig_checksum\<rparr>,
                   actual_hdr_len, ip_total_len))"

text \<open>
  Steps 4 to 7.  \<open>net_in\<close> (net.c, not under src/) is a parameter: it is given the
  buffer, the protocol and the source address, may change the buffer, and returns -1 when
  no handler is registered for the protocol.  The source address is read from the header
  in the buffer at each of the two calls that are given the pointer to it.
\<close>

datatype ip_in_result =
  Dropped ip_drop | Delivered | Unreachable "buf_t \<times> byte list \<times> nat"

definition ip_in ::
  "byte list \<Rightarrow> nat \<Rightarrow> (buf_t \<Rightarrow> nat \<Rightarrow> byte list \<Rightarrow> int \<times> buf_t) \<Rightarrow> buf_t
     \<Rightarrow> (ip_in_result \<times> buf_t) option" where
  "ip_in net_if_ip room net_in buf =
     (case ip_check buf of
        Inl (reason, buf) \<Rightarrow> Some (Dropped reason, buf)
      | Inr (buf, actual_hdr_len, ip_total_len) \<Rightarrow>
          let h = data buf in
          if take NET_IP_LEN (drop (h + 16) (payload buf)) \<noteq> take NET_IP_LEN net_if_ip
          then Some (Dropped Drop_dst, buf)
          else do {
            buf \<leftarrow> (if len buf > ip_total_len
                    then buf_remove_padding buf (len buf - ip_total_len) else Some buf);
            buf \<leftarrow> buf_remove_header buf actual_hdr_len;
            let protocol = unat (payload buf ! (h + 9));
            let src_ip = take NET_IP_LEN (drop (h + 12) (payload buf));
            let (ret, buf) = net_in buf protocol src_ip;
            if ret = -1 then do {
              buf \<leftarrow> buf_add_header buf actual_hdr_len;
              let src_ip = take NET_IP_LEN (drop (h + 12) (payload buf));
              Some (Unreachable (icmp_unreachable room buf src_ip ICMP_CODE_PROTOCOL_UNREACH),
                    buf)
            } else Some (Delivered, buf)
          })"

section \<open>ip.c: ip_fragment_out\<close>

text \<open>
  The function ends with \<open>arp_out(buf, ip)\<close>; the model returns the buffer of that
  call.  \<open>id\<close> is an \<open>int\<close> that \<open>ip_out\<close> fills from a \<open>uint16_t\<close>;
  \<open>offset\<close> is a \<open>uint16_t\<close>.  \<open>ip_hdr\<close> points at the 20 bytes at
  \<open>buf->data\<close>: the model takes these bytes, assigns the fields in the order of the
  code, and puts the 20 bytes back at \<open>buf->data\<close>.
\<close>

definition ip_fragment_out ::
  "byte list \<Rightarrow> nat \<Rightarrow> buf_t \<Rightarrow> byte list \<Rightarrow> nat \<Rightarrow> nat \<Rightarrow> nat \<Rightarrow> nat \<Rightarrow> buf_t option" where
  "ip_fragment_out net_if_ip IP_MORE_FRAGMENT buf ip protocol ident offset mf =
     do {
       buf \<leftarrow> buf_add_header buf (IP_HDR_LEN * IP_HDR_LEN_PER_BYTE);
       let ip_hdr = take 20 (drop (data buf) (payload buf));
       let ip_hdr = ip_hdr[0 := set_version (ip_hdr ! 0) IP_VERSION_4];
       let ip_hdr = ip_hdr[0 := set_hdr_len (ip_hdr ! 0) IP_HDR_LEN];
       let ip_hdr = ip_hdr[1 := of_nat IP_DEFAULT_TOS];
       let ip_hdr = store16 ip_hdr 2 (swap16 (len buf));
       let ip_hdr = store16 ip_hdr 4 (swap16 ident);
       let flags_fragment = 0;
       let flags_fragment =
             (if mf \<noteq> 0 then (flags_fragment OR IP_MORE_FRAGMENT) mod 65536
              else flags_fragment);
       let flags_fragment = flags_fragment OR (offset div IP_HDR_OFFSET_PER_BYTE);
       let ip_hdr = store16 ip_hdr 6 (swap16 flags_fragment);
       let ip_hdr = ip_hdr[8 := of_nat IP_DEFAULT_TTL];
       let ip_hdr = ip_hdr[9 := of_nat protocol];
       let ip_hdr = memcpy ip_hdr 12 net_if_ip NET_IP_LEN;
       let ip_hdr = memcpy ip_hdr 16 ip NET_IP_LEN;
       let ip_hdr = store16 ip_hdr 10 0;
       let ip_hdr = store16 ip_hdr 10
                      (checksum16 (take (IP_HDR_LEN * IP_HDR_LEN_PER_BYTE) ip_hdr));
       Some (buf\<lparr>payload := memcpy (payload buf) (data buf) ip_hdr 20\<rparr>)
     }"

section \<open>ip.c: ip_out\<close>

text \<open>
  A call of \<open>ip_fragment_out\<close>: the buffer, the address, the protocol, the id, the
  offset and the flag \<open>mf\<close>.  \<open>ip_out\<close> returns the calls it makes, in order, and
  the new value of the static counter \<open>ip_id\<close>.
\<close>

record frag_call =
  fbuf :: buf_t
  fip :: "byte list"
  fprotocol :: nat
  fid :: nat
  foffset :: nat
  fmf :: nat

text \<open>
  The \<open>while\<close> loop that sends every fragment but the last.  \<open>T\<close> is
  \<open>IP_MAX_PAYLOAD\<close>; \<open>fragment_offset\<close> is a \<open>uint16_t\<close>.  The result is the
  calls made, \<open>sent_len\<close> and \<open>fragment_offset\<close> when the loop ends; the loop
  does not end when \<open>T\<close> is 0.
\<close>

partial_function (option) ip_out_loop ::
  "nat \<Rightarrow> nat \<Rightarrow> buf_t \<Rightarrow> byte list \<Rightarrow> nat \<Rightarrow> nat \<Rightarrow> nat \<Rightarrow> nat \<Rightarrow> frag_call list
     \<Rightarrow> (frag_call list \<times> nat \<times> nat) option" where
  "ip_out_loop T room buf ip protocol cur_id sent_len fragment_offset calls =
     (if sent_len + T < len buf
      then
        ip_out_loop T room buf ip protocol cur_id (sent_len + T)
          ((fragment_offset + T) mod 65536)
          (calls @
           [\<lparr>fbuf = (buf_init room T)
                      \<lparr>payload := memcpy (payload (buf_init room T)) (data (buf_init room T))
                                   (drop (data buf + sent_len) (payload buf)) T,
                       len := T\<rparr>,
             fip = ip, fprotocol = protocol, fid = cur_id, foffset = fragment_offset,
             fmf = 1\<rparr>])
      else Some (calls, sent_len, fragment_offset))"

definition ip_out ::
  "nat \<Rightarrow> nat \<Rightarrow> buf_t \<Rightarrow> byte list \<Rightarrow> nat \<Rightarrow> nat \<Rightarrow> (frag_call list \<times> nat) option" where
  "ip_out T room buf ip protocol ip_id =
     (let payload_len = len buf;
          need_fragment = (payload_len > T)
      in
      if need_fragment then
        let cur_id = ip_id;
            ip_id = (ip_id + 1) mod 65536
        in do {
          (calls, sent_len, fragment_offset) \<leftarrow>
            ip_out_loop T room buf ip protocol cur_id 0 0 [];
          let last_frag_len = payload_len - sent_len;
          if last_frag_len > 0 then
            let last_frag_buf = buf_init room last_frag_len;
                last_frag_buf = last_frag_buf
                  \<lparr>payload := memcpy (payload last_frag_buf) (data last_frag_buf)
                                (drop (data buf + sent_len) (payload buf)) last_frag_len,
                   len := last_frag_len\<rparr>
            in Some (calls @
                     [\<lparr>fbuf = last_frag_buf, fip = ip, fprotocol = protocol, fid = cur_id,
                       foffset = fragment_offset, fmf = 0\<rparr>], ip_id)
          else Some (calls, ip_id)
        }
      else
        let cur_id = ip_id;
            ip_id = (ip_id + 1) mod 65536
        in Some ([\<lparr>fbuf = buf, fip = ip, fprotocol = protocol, fid = cur_id,
                   foffset = 0, fmf = 0\<rparr>], ip_id))"

section \<open>The Internet checksum as the spec words it\<close>

text \<open>
  The spec's description of \<open>checksum16\<close>, over the 16-bit words of the region in the
  order of the wire (high byte first): an odd trailing byte is the high byte of a last
  word whose low byte is zero; the sum is an unbounded number; every carry above bit 15 is
  added back into the low 16 bits until none remains; the result is the complement of
  the 16 bits.
\<close>

fun words_be :: "byte list \<Rightarrow> nat list" where
  "words_be (a # b # r) = (256 * unat a + unat b) # words_be r"
| "words_be [a] = [256 * unat a]"
| "words_be [] = []"

function fold_carry_spec :: "nat \<Rightarrow> nat" where
  "fold_carry_spec s =
     (if s div 65536 \<noteq> 0 then fold_carry_spec (s mod 65536 + s div 65536) else s)"
  by pat_completeness auto
termination
proof (relation "measure (\<lambda>s. s)")
  show "wf (measure (\<lambda>s::nat. s))" by simp
next
  fix s :: nat
  assume h: "s div 65536 \<noteq> 0"
  have "s mod 65536 + s div 65536 < s mod 65536 + 65536 * (s div 65536)"
    using h by (intro add_strict_left_mono) simp
  also have "\<dots> = s"
    by (rule mod_mult_div_eq)
  finally show "(s mod 65536 + s div 65536, s) \<in> measure (\<lambda>s. s)"
    by simp
qed

declare fold_carry_spec.simps [simp del]

definition checksum16_spec :: "byte list \<Rightarrow> nat" where
  "checksum16_spec d = 65535 - fold_carry_spec (sum_list (words_be d))"

text \<open>
  Auxiliary notions for the proofs: the 16-bit words as the little-endian host reads them,
  the exact sum of the code's additions, and the value that end-around carry folding
  reaches from a sum.
\<close>

fun words_le :: "byte list \<Rightarrow> nat list" where
  "words_le (a # b # r) = (unat a + 256 * unat b) # words_le r"
| "words_le [a] = [unat a]"
| "words_le [] = []"

definition host_total :: "byte list \<Rightarrow> nat" where
  "host_total d =
     (\<Sum>i<length d div 2. load16 d (2 * i)) +
     (if length d mod 2 \<noteq> 0 then unat (d ! (length d - 1)) else 0)"

definition norm16 :: "nat \<Rightarrow> nat" where
  "norm16 s = (if s = 0 then 0 else if s mod 65535 = 0 then 65535 else s mod 65535)"

section \<open>The pseudo-header as the spec words it\<close>

text \<open>
  The twelve bytes of the spec: the source address, the destination address, a zero byte,
  the protocol, and the length of the segment as a big-endian 16-bit number.
\<close>

definition pseudo_header :: "nat \<Rightarrow> nat \<Rightarrow> byte list \<Rightarrow> byte list \<Rightarrow> byte list" where
  "pseudo_header protocol seg_len src_ip dst_ip =
     take 4 src_ip @ take 4 dst_ip @
     [0, of_nat protocol, of_nat ((seg_len div 256) mod 256), of_nat (seg_len mod 256)]"


section \<open>The IP header as the spec words it\<close>

text \<open>
  The 20 bytes that the spec gives for \<open>fragmentOut\<close>: version 4 and a header length
  of 5 words, TOS 0, the total length, the id, the flags with the fragment offset in units
  of 8 bytes, TTL 64, the protocol, the checksum of the 20 bytes computed with its field
  zero, the local address and the destination; every 16-bit field but the checksum high
  byte first.
\<close>

definition ip_header :: "byte list \<Rightarrow> nat \<Rightarrow> nat \<Rightarrow> byte list \<Rightarrow> nat \<Rightarrow> nat \<Rightarrow> nat \<Rightarrow> nat \<Rightarrow> byte list" where
  "ip_header net_if_ip IP_MORE_FRAGMENT total_len ip protocol ident offset mf =
     (let fl = (if mf \<noteq> 0 then IP_MORE_FRAGMENT mod 65536 else 0) OR (offset div 8);
          hdr0 = [0x45, 0, of_nat ((total_len div 256) mod 256), of_nat (total_len mod 256),
                  of_nat ((ident div 256) mod 256), of_nat (ident mod 256),
                  of_nat ((fl div 256) mod 256), of_nat (fl mod 256),
                  64, of_nat protocol, 0, 0] @ take 4 net_if_ip @ take 4 ip
      in store16 hdr0 10 (checksum16 hdr0))"


text \<open>
  A \<open>net_in\<close> with no handler registered: it leaves the buffer as it is and returns -1.
\<close>

definition net_in_none :: "buf_t \<Rightarrow> nat \<Rightarrow> byte list \<Rightarrow> int \<times> buf_t" where
  "net_in_none buf protocol src = (-1, buf)"

text \<open>
  A received datagram of 20 bytes whose checksum field (\<open>0x12\<close>, \<open>0x34\<close>) is not the
  checksum of its header, and the same bytes with the field zero.
\<close>

definition bad_checksum_datagram :: buf_t where
  "bad_checksum_datagram =
     \<lparr>payload = [0x45, 0, 0, 20, 0, 0, 0, 0, 64, 17, 0x12, 0x34, 10, 0, 0, 2, 10, 0, 0, 1],
      data = 0, len = 20\<rparr>"

definition bad_checksum_datagram_dropped :: buf_t where
  "bad_checksum_datagram_dropped =
     \<lparr>payload = [0x45, 0, 0, 20, 0, 0, 0, 0, 64, 17, 0, 0, 10, 0, 0, 2, 10, 0, 0, 1],
      data = 0, len = 20\<rparr>"

section \<open>The fragments that ip_out sends\<close>

text \<open>
  The call of \<open>ip_fragment_out\<close> for the fragment number \<open>k\<close> (from 0) of a payload
  cut every \<open>T\<close> bytes: a fresh buffer whose window holds the \<open>n\<close> bytes of the
  payload from byte \<open>k * T\<close> on, with the offset as the 16 bits of the code keep it.
\<close>

definition frag_at ::
  "nat \<Rightarrow> nat \<Rightarrow> buf_t \<Rightarrow> byte list \<Rightarrow> nat \<Rightarrow> nat \<Rightarrow> nat \<Rightarrow> nat \<Rightarrow> nat \<Rightarrow> frag_call" where
  "frag_at T room buf ip protocol cur_id k mf n =
     \<lparr>fbuf = (buf_init room n)
               \<lparr>payload := memcpy (payload (buf_init room n)) (data (buf_init room n))
                             (drop (data buf + k * T) (payload buf)) n,
                len := n\<rparr>,
      fip = ip, fprotocol = protocol, fid = cur_id, foffset = (k * T) mod 65536, fmf = mf\<rparr>"

text \<open>The 68081 zero bytes of a payload that needs 47 fragments of 1480 bytes.\<close>

definition long_payload :: buf_t where
  "long_payload = \<lparr>payload = replicate 68081 0, data = 0, len = 68081\<rparr>"

section \<open>Properties of checksum16\<close>

lemma fold_step_mod:
  fixes s m k :: nat
  assumes "k = m + 1"
  shows "(s mod k + s div k) mod m = s mod m"
proof -
  have "s = k * (s div k) + s mod k" by simp
  also have "\<dots> = m * (s div k) + (s mod k + s div k)"
    using assms by (simp add: algebra_simps)
  finally have "s mod m = (m * (s div k) + (s mod k + s div k)) mod m" by simp
  also have "\<dots> = (s mod k + s div k) mod m" by (rule mod_mult_self4)
  finally show ?thesis by simp
qed

lemma fold_step_small: "s < 2 ^ 32 \<Longrightarrow> s mod 65536 + s div 65536 < (2::nat) ^ 32"
proof -
  assume "s < 2 ^ 32"
  then have "s div 65536 < 65536" by (simp add: less_mult_imp_div_less)
  moreover have "s mod 65536 < 65536" by simp
  ultimately show ?thesis by simp
qed

lemma div_pos_sum_pos: "(s::nat) div k \<noteq> 0 \<Longrightarrow> 0 < s mod k + s div k"
  by simp

lemma norm16_small: "s < 65536 \<Longrightarrow> norm16 s = s"
proof -
  assume h: "s < 65536"
  show ?thesis
  proof (cases "s = 65535")
    case True then show ?thesis by (simp add: norm16_def)
  next
    case False
    with h have "s < 65535" by simp
    then show ?thesis by (simp add: norm16_def)
  qed
qed

lemma norm16_step:
  assumes "s div 65536 \<noteq> 0"
  shows "norm16 (s mod 65536 + s div 65536) = norm16 s"
proof -
  have a: "(s mod 65536 + s div 65536) mod 65535 = s mod 65535"
    by (rule fold_step_mod) simp
  have b: "s mod 65536 + s div 65536 \<noteq> 0" using assms by simp
  have c: "s \<noteq> 0" using assms by auto
  have "norm16 (s mod 65536 + s div 65536) =
        (if (s mod 65536 + s div 65536) mod 65535 = 0 then 65535
         else (s mod 65536 + s div 65536) mod 65535)"
    unfolding norm16_def using b by (simp only: if_False)
  also have "\<dots> = (if s mod 65535 = 0 then 65535 else s mod 65535)"
    by (simp only: a)
  also have "\<dots> = norm16 s"
    unfolding norm16_def using c by (simp only: if_False)
  finally show ?thesis .
qed

lemma fold_carry_norm: "s < 2 ^ 32 \<Longrightarrow> fold_carry s = norm16 s"
proof (induction s rule: fold_carry.induct)
  case (1 s)
  show ?case
  proof (cases "s div 65536 \<noteq> 0")
    case True
    have sm: "s mod 65536 + s div 65536 < 2 ^ 32" using 1(2) by (rule fold_step_small)
    then have e: "(s mod 65536 + s div 65536) mod 2 ^ 32 = s mod 65536 + s div 65536" by simp
    have "fold_carry s = fold_carry ((s mod 65536 + s div 65536) mod 2 ^ 32)"
      using True by (subst fold_carry.simps) simp
    also have "\<dots> = norm16 ((s mod 65536 + s div 65536) mod 2 ^ 32)"
      using 1(1)[OF True] sm e by simp
    also have "\<dots> = norm16 s" using e norm16_step[OF True] by simp
    finally show ?thesis .
  next
    case False
    then have "s < 65536" by (simp add: div_eq_0_iff)
    then show ?thesis using False by (subst fold_carry.simps) (simp add: norm16_small)
  qed
qed


lemma byte_le: "unat (a::byte) \<le> 255"
proof -
  have "unat a < 2 ^ 8" using unsigned_less[of a] by simp
  then show ?thesis by simp
qed

lemma sum_words_eq: "sum_words d n = (\<Sum>i<n. load16 d (2 * i)) mod 2 ^ 32"
proof (induction n)
  case 0
  show ?case by (simp add: sum_words_def)
next
  case (Suc n)
  have "sum_words d (Suc n) = (sum_words d n + load16 d (2 * n)) mod 2 ^ 32"
    by (simp add: sum_words_def)
  also have "\<dots> = ((\<Sum>i<n. load16 d (2 * i)) mod 2 ^ 32 + load16 d (2 * n)) mod 2 ^ 32"
    by (simp only: Suc.IH)
  also have "\<dots> = ((\<Sum>i<n. load16 d (2 * i)) + load16 d (2 * n)) mod 2 ^ 32"
    by (rule mod_add_left_eq)
  finally show ?case by simp
qed

lemma hsum_cons2:
  "(\<Sum>i<Suc n. load16 (a # b # r) (2 * i)) = (unat a + 256 * unat b) + (\<Sum>i<n. load16 r (2 * i))"
  by (subst sum.lessThan_Suc_shift) (simp add: load16_def)

lemma host_total_words: "host_total d = sum_list (words_le d)"
proof (induction d rule: words_le.induct)
  case (1 a b r)
  have l: "length (a # b # r) div 2 = Suc (length r div 2)" by simp
  have m: "length (a # b # r) mod 2 = length r mod 2" by simp
  have n: "length r mod 2 \<noteq> 0 \<Longrightarrow> (a # b # r) ! (length (a # b # r) - 1) = r ! (length r - 1)"
    by (cases r) auto
  show ?case
    unfolding host_total_def l m hsum_cons2 using 1 n
    by (auto simp: host_total_def)
next
  case (2 a)
  show ?case by (simp add: host_total_def)
next
  case 3
  show ?case by (simp add: host_total_def)
qed


lemma words_le_be: "\<exists>B. 256 * sum_list (words_le d) = sum_list (words_be d) + 65535 * B"
proof (induction d rule: words_le.induct)
  case (1 a b r)
  then obtain B where B: "256 * sum_list (words_le r) = sum_list (words_be r) + 65535 * B" ..
  have "256 * sum_list (words_le (a # b # r)) =
        sum_list (words_be (a # b # r)) + 65535 * (unat b + B)"
    using B by simp
  then show ?case ..
next
  case (2 a)
  have "256 * sum_list (words_le [a]) = sum_list (words_be [a]) + 65535 * 0" by simp
  then show ?case ..
next
  case 3
  have "256 * sum_list (words_le []) = sum_list (words_be []) + 65535 * 0" by simp
  then show ?case ..
qed

lemma words_zero: "sum_list (words_le d) = 0 \<longleftrightarrow> sum_list (words_be d) = 0"
  by (induction d rule: words_le.induct) auto

lemma words_le_bound: "sum_list (words_le d) \<le> 65535 * ((length d + 1) div 2)"
proof (induction d rule: words_le.induct)
  case (1 a b r)
  have w: "unat a + 256 * unat b \<le> 65535" using byte_le[of a] byte_le[of b] by simp
  have l: "(length (a # b # r) + 1) div 2 = Suc ((length r + 1) div 2)" by simp
  have "sum_list (words_le (a # b # r)) = (unat a + 256 * unat b) + sum_list (words_le r)"
    by simp
  also have "\<dots> \<le> 65535 + 65535 * ((length r + 1) div 2)"
    using w 1 by (rule add_mono)
  also have "\<dots> = 65535 * Suc ((length r + 1) div 2)"
    by (simp only: mult_Suc_right)
  finally show ?case by (simp only: l)
next
  case (2 a)
  show ?case using byte_le[of a] by simp
next
  case 3
  show ?case by simp
qed

lemma host_total_small:
  assumes "length d \<le> 131074"
  shows "host_total d < 2 ^ 32"
proof -
  have "(length d + 1) div 2 \<le> 65537" using assms by simp
  then have "65535 * ((length d + 1) div 2) \<le> 65535 * 65537" by (rule mult_le_mono2)
  then have "sum_list (words_le d) \<le> 65535 * 65537" using words_le_bound[of d] by (rule order_trans[rotated])
  then show ?thesis by (simp add: host_total_words)
qed

lemma checksum16_host: "checksum16 d = (2 ^ 32 - 1 - fold_carry (host_total d mod 2 ^ 32)) mod 65536"
proof (cases "length d mod 2 \<noteq> 0")
  case True
  have "checksum16 d =
        (2 ^ 32 - 1 - fold_carry ((sum_words d (length d div 2) + unat (d ! (length d - 1))) mod 2 ^ 32)) mod 65536"
    using True by (simp add: checksum16_def Let_def)
  also have "(sum_words d (length d div 2) + unat (d ! (length d - 1))) mod 2 ^ 32 = host_total d mod 2 ^ 32"
    unfolding sum_words_eq host_total_def using True by (simp add: mod_add_left_eq)
  finally show ?thesis .
next
  case False
  have "checksum16 d = (2 ^ 32 - 1 - fold_carry (sum_words d (length d div 2))) mod 65536"
    using False by (simp add: checksum16_def Let_def)
  also have "sum_words d (length d div 2) = host_total d mod 2 ^ 32"
    unfolding sum_words_eq host_total_def using False by simp
  finally show ?thesis .
qed

lemma norm16_le: "norm16 s \<le> 65535"
proof -
  have "s mod 65535 < 65535" by simp
  then show ?thesis by (simp add: norm16_def)
qed

lemma compl16: "x \<le> 65535 \<Longrightarrow> (2 ^ 32 - 1 - x) mod 65536 = 65535 - (x::nat)"
proof -
  assume h: "x \<le> 65535"
  have e: "(2::nat) ^ 32 - 1 = 65535 + 65535 * 65536" by simp
  have "65535 + 65535 * 65536 - x = (65535 - x) + 65535 * (65536::nat)"
    using h by (rule diff_add_assoc2)
  then have "(2 ^ 32 - 1 - x) mod 65536 = ((65535 - x) + 65535 * 65536) mod 65536"
    by (simp only: e)
  also have "\<dots> = (65535 - x) mod 65536" by (rule mod_mult_self1)
  also have "\<dots> = 65535 - x" by (rule mod_less) simp
  finally show ?thesis .
qed

lemma checksum16_norm:
  "length d \<le> 131074 \<Longrightarrow> checksum16 d = 65535 - norm16 (sum_list (words_le d))"
proof -
  assume h: "length d \<le> 131074"
  have s: "host_total d < 2 ^ 32" using h by (rule host_total_small)
  then have m: "host_total d mod 2 ^ 32 = host_total d" by simp
  have "checksum16 d = (2 ^ 32 - 1 - norm16 (host_total d)) mod 65536"
    unfolding checksum16_host m using s by (simp only: fold_carry_norm)
  also have "\<dots> = 65535 - norm16 (host_total d)" using norm16_le by (rule compl16)
  finally show ?thesis by (simp only: host_total_words)
qed


lemma fold_carry_spec_norm: "fold_carry_spec s = norm16 s"
proof (induction s rule: fold_carry_spec.induct)
  case (1 s)
  show ?case
  proof (cases "s div 65536 \<noteq> 0")
    case True
    have "fold_carry_spec s = fold_carry_spec (s mod 65536 + s div 65536)"
      using True by (subst fold_carry_spec.simps) simp
    also have "\<dots> = norm16 (s mod 65536 + s div 65536)"
      using 1[OF True] .
    also have "\<dots> = norm16 s" using True by (rule norm16_step)
    finally show ?thesis .
  next
    case False
    then have "s < 65536" by (simp add: div_eq_0_iff)
    then show ?thesis using False by (subst fold_carry_spec.simps) (simp add: norm16_small)
  qed
qed

lemma swap16_digits: "r < 256 \<Longrightarrow> q < 256 \<Longrightarrow> swap16 (256 * q + r) = 256 * r + q"
  by (simp add: swap16_def)

lemma digits16:
  assumes "x \<le> 65535"
  obtains q r :: nat where "x = 256 * q + r" "q < 256" "r < 256"
proof -
  have "x < 256 * 256" using assms by simp
  then have "x div 256 < 256" by (rule less_mult_imp_div_less)
  moreover have "x mod 256 < 256" by simp
  moreover have "x = 256 * (x div 256) + x mod 256" by simp
  ultimately show ?thesis using that by blast
qed

lemma compl_sum: "a + q = 255 \<Longrightarrow> b + r = 255 \<Longrightarrow> (256 * a + b) + (256 * q + r) = (65535::nat)"
  by simp

lemma swap16_compl:
  assumes "x \<le> 65535"
  shows "swap16 (65535 - x) = 65535 - swap16 x"
proof -
  obtain q r where x: "x = 256 * q + r" and q: "q < 256" and r: "r < 256"
    using assms by (rule digits16)
  have "q \<le> 255" using q by simp
  then have "255 - q + q = 255" by (rule le_add_diff_inverse2)
  then obtain a where a: "a + q = 255" ..
  have "r \<le> 255" using r by simp
  then have "255 - r + r = 255" by (rule le_add_diff_inverse2)
  then obtain b where b: "b + r = 255" ..
  have a': "a < 256" using a by simp
  have b': "b < 256" using b by simp
  have "(256 * a + b) + x = 65535" unfolding x using a b by (rule compl_sum)
  then have "65535 - x = (256 * a + b) + x - x" by (rule arg_cong[where f="\<lambda>t. t - x", symmetric])
  also have "\<dots> = 256 * a + b" by (rule add_diff_cancel_right')
  finally have c: "65535 - x = 256 * a + b" .
  have "(256 * b + a) + (256 * r + q) = 65535" using b a by (rule compl_sum)
  then have "65535 - (256 * r + q) = (256 * b + a) + (256 * r + q) - (256 * r + q)"
    by (rule arg_cong[where f="\<lambda>t. t - (256 * r + q)", symmetric])
  also have "\<dots> = 256 * b + a" by (rule add_diff_cancel_right')
  finally have d: "65535 - (256 * r + q) = 256 * b + a" .
  show ?thesis
    unfolding c unfolding x by (simp only: swap16_digits[OF b' a'] swap16_digits[OF r q] d)
qed


lemma norm16_mod: "norm16 s mod 65535 = s mod 65535"
  by (simp add: norm16_def)

lemma norm16_pos: "s \<noteq> 0 \<Longrightarrow> norm16 s \<noteq> 0"
  by (simp add: norm16_def)

lemma norm16_unique:
  assumes "a \<noteq> 0" "a \<le> 65535" "s \<noteq> 0" "a mod 65535 = s mod 65535"
  shows "norm16 s = a"
proof (cases "a = 65535")
  case True
  then have "s mod 65535 = 0" using assms(4) by simp
  then show ?thesis using assms(3) True by (simp add: norm16_def)
next
  case False
  then have l: "a < 65535" using assms(2) by simp
  then have "a mod 65535 = a" by simp
  then have "s mod 65535 = a" using assms(4) by simp
  then show ?thesis using assms(1,3) by (simp add: norm16_def)
qed

lemma swap16_props:
  assumes "x \<le> 65535"
  shows "swap16 x \<le> 65535" and "x \<noteq> 0 \<Longrightarrow> swap16 x \<noteq> 0"
    and "swap16 x mod 65535 = (256 * x) mod 65535"
proof -
  obtain q r where x: "x = 256 * q + r" and q: "q < 256" and r: "r < 256"
    using assms by (rule digits16)
  have s: "swap16 x = 256 * r + q" unfolding x using r q by (rule swap16_digits)
  show "swap16 x \<le> 65535" unfolding s using q r by simp
  show "x \<noteq> 0 \<Longrightarrow> swap16 x \<noteq> 0"
  proof -
    assume "x \<noteq> 0"
    then have "256 * r + q \<noteq> 0" unfolding x by auto
    then show "swap16 x \<noteq> 0" by (simp only: s not_False_eq_True)
  qed
  have "256 * x = (256 * r + q) + 65535 * q" unfolding x by simp
  then have "(256 * x) mod 65535 = ((256 * r + q) + 65535 * q) mod 65535" by simp
  also have "\<dots> = (256 * r + q) mod 65535" by (rule mod_mult_self4[of _ 65535 q, simplified add.commute] mod_mult_self2)
  finally show "swap16 x mod 65535 = (256 * x) mod 65535" unfolding s by simp
qed

lemma host_net_mod:
  "sum_list (words_le d) mod 65535 = (256 * sum_list (words_be d)) mod 65535"
proof -
  obtain B where B: "256 * sum_list (words_le d) = sum_list (words_be d) + 65535 * B"
    using words_le_be by blast
  define H where "H = sum_list (words_le d)"
  define N where "N = sum_list (words_be d)"
  have "256 * (256 * H) = 256 * N + 65535 * (256 * B)" using B unfolding H_def N_def by simp
  then have "H + 65535 * H = 256 * N + 65535 * (256 * B)" by simp
  then have "(H + 65535 * H) mod 65535 = (256 * N + 65535 * (256 * B)) mod 65535" by simp
  then have "H mod 65535 = (256 * N) mod 65535" by (simp only: mod_mult_self2)
  then show ?thesis unfolding H_def N_def .
qed

lemma norm16_swap:
  "norm16 (sum_list (words_le d)) = swap16 (norm16 (sum_list (words_be d)))"
proof (cases "sum_list (words_be d) = 0")
  case True
  then have "sum_list (words_le d) = 0" by (simp only: words_zero)
  then show ?thesis using True by (simp add: norm16_def swap16_def)
next
  case False
  define X where "X = norm16 (sum_list (words_be d))"
  have h0: "sum_list (words_le d) \<noteq> 0" using False by (simp only: words_zero) simp
  have x0: "X \<noteq> 0" unfolding X_def using False by (rule norm16_pos)
  have xl: "X \<le> 65535" unfolding X_def by (rule norm16_le)
  have "swap16 X mod 65535 = (256 * X) mod 65535" using xl by (rule swap16_props(3))
  also have "\<dots> = (256 * (X mod 65535)) mod 65535" by (simp only: mod_mult_right_eq)
  also have "\<dots> = (256 * (sum_list (words_be d) mod 65535)) mod 65535"
    unfolding X_def by (simp only: norm16_mod)
  also have "\<dots> = (256 * sum_list (words_be d)) mod 65535" by (simp only: mod_mult_right_eq)
  also have "\<dots> = sum_list (words_le d) mod 65535" by (simp only: host_net_mod)
  finally have m: "swap16 X mod 65535 = sum_list (words_le d) mod 65535" .
  have "norm16 (sum_list (words_le d)) = swap16 X"
    using swap16_props(2)[OF xl x0] swap16_props(1)[OF xl] h0 m by (rule norm16_unique)
  then show ?thesis unfolding X_def .
qed

lemma checksum16_refines_gen:
  assumes "length d \<le> 131074"
  shows "checksum16 d = swap16 (checksum16_spec d)"
proof -
  have "checksum16 d = 65535 - norm16 (sum_list (words_le d))"
    using assms by (rule checksum16_norm)
  also have "\<dots> = 65535 - swap16 (norm16 (sum_list (words_be d)))"
    by (simp only: norm16_swap)
  also have "\<dots> = swap16 (65535 - norm16 (sum_list (words_be d)))"
    using norm16_le by (rule swap16_compl[symmetric])
  finally show ?thesis by (simp only: checksum16_spec_def fold_carry_spec_norm)
qed

lemma byte_of_nat: "n < 256 \<Longrightarrow> unat (of_nat n :: byte) = n"
  by (simp add: unat_of_nat)

lemma store16_cons2: "store16 (a # b # r) (2 * Suc k) v = a # b # store16 r (2 * k) v"
  by (simp add: store16_def)

lemma words_le_store16:
  "2 * k + 2 \<le> length d \<Longrightarrow> v < 65536 \<Longrightarrow> words_le (store16 d (2 * k) v) = (words_le d)[k := v]"
proof (induction d arbitrary: k rule: words_le.induct)
  case (1 a b r)
  show ?case
  proof (cases k)
    case 0
    have "v div 256 < 256" using 1(3) by (simp add: less_mult_imp_div_less)
    then have h: "unat (of_nat ((v div 256) mod 256) :: byte) = v div 256" by (simp add: byte_of_nat)
    have l: "unat (of_nat (v mod 256) :: byte) = v mod 256" by (simp add: byte_of_nat)
    have "v mod 256 + 256 * (v div 256) = v" by simp
    then show ?thesis using 0 h l by (simp add: store16_def)
  next
    case (Suc k')
    have "2 * k' + 2 \<le> length r" using 1(2) Suc by simp
    then have "words_le (store16 r (2 * k') v) = (words_le r)[k' := v]" using 1(3) by (rule 1(1))
    then show ?thesis unfolding Suc store16_cons2 by simp
  qed
next
  case (2 a)
  then show ?case by simp
next
  case 3
  then show ?case by simp
qed

lemma length_words_le: "length (words_le d) = (length d + 1) div 2"
  by (induction d rule: words_le.induct) auto

lemma sum_list_update_zero:
  "k < length xs \<Longrightarrow> xs ! k = (0::nat) \<Longrightarrow> sum_list (xs[k := v]) = sum_list xs + v"
  by (induction xs arbitrary: k) (auto split: nat.splits)

lemma length_store16: "length (store16 d j v) = length d"
  by (simp add: store16_def)

lemma store16_twice: "store16 (store16 d j v) j w = store16 d j w"
  by (simp add: store16_def list_update_swap)

lemma host_total_field:
  assumes "2 * k + 2 \<le> length d" "c < 65536"
  shows "host_total (store16 d (2 * k) c) = host_total (store16 d (2 * k) 0) + c"
proof -
  let ?d0 = "store16 d (2 * k) 0"
  have w0: "words_le ?d0 = (words_le d)[k := 0]" using assms(1) by (rule words_le_store16) simp
  have kl: "k < length (words_le d)" using assms(1) by (simp add: length_words_le)
  have "words_le (store16 d (2 * k) c) = (words_le d)[k := c]" using assms by (rule words_le_store16)
  also have "\<dots> = ((words_le d)[k := 0])[k := c]" by simp
  finally have "sum_list (words_le (store16 d (2 * k) c)) = sum_list (((words_le d)[k := 0])[k := c])"
    by simp
  also have "\<dots> = sum_list ((words_le d)[k := 0]) + c"
    using kl by (intro sum_list_update_zero) simp_all
  finally show ?thesis by (simp only: host_total_words w0)
qed


lemma checksum16_closed:
  "checksum16 d = 65535 - norm16 (host_total d mod 2 ^ 32)"
proof -
  have s: "host_total d mod 2 ^ 32 < 2 ^ 32" by simp
  have "checksum16 d = (2 ^ 32 - 1 - norm16 (host_total d mod 2 ^ 32)) mod 65536"
    unfolding checksum16_host using s by (simp only: fold_carry_norm)
  also have "\<dots> = 65535 - norm16 (host_total d mod 2 ^ 32)" using norm16_le by (rule compl16)
  finally show ?thesis .
qed

lemma embed_core:
  assumes "s < 2 ^ 32"
  shows "s + (65535 - norm16 s) < 2 ^ 32 \<and> norm16 (s + (65535 - norm16 s)) = 65535"
proof -
  consider (a) "s = 0" | (b) "s \<noteq> 0" "s mod 65535 = 0" | (c) "s \<noteq> 0" "s mod 65535 \<noteq> 0"
    by blast
  then show ?thesis
  proof cases
    case a
    then show ?thesis by (simp add: norm16_def)
  next
    case b
    then have "norm16 s = 65535" by (simp add: norm16_def)
    then show ?thesis using assms by simp
  next
    case c
    define r where "r = s mod 65535"
    define q where "q = s div 65535"
    have n: "norm16 s = r" using c by (simp add: norm16_def r_def)
    have r1: "1 \<le> r" using c(2) by (simp add: r_def)
    have r2: "r \<le> 65535" by (simp add: r_def)
    have sq: "s = 65535 * q + r" by (simp add: q_def r_def)
    have rc: "r + (65535 - r) = 65535" using r2 by (rule le_add_diff_inverse)
    have t: "s + (65535 - norm16 s) = 65535 * (q + 1)"
      unfolding n using rc sq by (simp add: add.assoc)
    have ql: "q \<le> 65536"
    proof (rule ccontr)
      assume "\<not> q \<le> 65536"
      then have "65537 \<le> q" by simp
      then have "65535 * 65537 \<le> 65535 * q" by (rule mult_le_mono2)
      then have "(2::nat) ^ 32 \<le> s" using r1 sq by simp
      then show False using assms by simp
    qed
    then have "q + 1 \<le> 65537" by simp
    then have "65535 * (q + 1) \<le> 65535 * 65537" by (rule mult_le_mono2)
    then have b1: "65535 * (q + 1) < 2 ^ 32" by simp
    have "norm16 (65535 * (q + 1)) = 65535" by (simp add: norm16_def)
    then show ?thesis using b1 by (simp only: t)
  qed
qed

lemma checksum16_embed_gen:
  assumes "2 * k + 2 \<le> length d"
  shows "checksum16 (store16 d (2 * k) (checksum16 (store16 d (2 * k) 0))) = 0"
proof -
  define s where "s = host_total (store16 d (2 * k) 0) mod 2 ^ 32"
  define c where "c = checksum16 (store16 d (2 * k) 0)"
  have sl: "s < 2 ^ 32" by (simp add: s_def)
  have c: "c = 65535 - norm16 s" unfolding c_def s_def by (rule checksum16_closed)
  have "c \<le> 65535" unfolding c by (rule diff_le_self)
  then have cl: "c < 65536" by simp
  have "host_total (store16 d (2 * k) c) = host_total (store16 d (2 * k) 0) + c"
    using assms cl by (rule host_total_field)
  then have "host_total (store16 d (2 * k) c) mod 2 ^ 32 = (s + c) mod 2 ^ 32"
    by (simp add: s_def mod_add_left_eq)
  also have "\<dots> = s + c" using embed_core[OF sl] unfolding c by simp
  finally have "checksum16 (store16 d (2 * k) c) = 65535 - norm16 (s + c)"
    by (simp only: checksum16_closed)
  also have "\<dots> = 0" using embed_core[OF sl] unfolding c by simp
  finally show ?thesis unfolding c_def .
qed

lemma words_le_ff: "words_le (replicate (2 * n) 255) = replicate n 65535"
  by (induction n) simp_all

lemma words_be_ff: "words_be (replicate (2 * n) 255) = replicate n 65535"
  by (induction n) simp_all

lemma cex_ff: "checksum16 (replicate 131076 255) = 1 \<and> checksum16_spec (replicate 131076 255) = 0"
proof -
  have e: "(131076::nat) = 2 * 65538" by simp
  have l: "sum_list (words_le (replicate 131076 255)) = 65538 * 65535"
    unfolding e words_le_ff by (simp add: sum_list_replicate)
  have b: "sum_list (words_be (replicate 131076 255)) = 65538 * 65535"
    unfolding e words_be_ff by (simp add: sum_list_replicate)
  have "checksum16 (replicate 131076 255) = 65535 - norm16 ((65538 * 65535) mod 2 ^ 32)"
    by (simp only: checksum16_closed host_total_words l)
  also have "\<dots> = 1" by (simp add: norm16_def)
  finally have 1: "checksum16 (replicate 131076 255) = 1" .
  have "checksum16_spec (replicate 131076 255) = 65535 - norm16 (65538 * 65535)"
    by (simp only: checksum16_spec_def fold_carry_spec_norm b)
  also have "\<dots> = 0" by (simp add: norm16_def)
  finally show ?thesis using 1 by simp
qed

section \<open>Properties of transport_checksum\<close>

lemma store16_swap16:
  "store16 p k (swap16 v) = p[k := of_nat ((v div 256) mod 256), k + 1 := of_nat (v mod 256)]"
proof -
  have a: "swap16 v mod 256 = (v div 256) mod 256"
    unfolding swap16_def by (simp add: mod_mult_self3)
  have b: "v div 256 mod 256 < 256" by simp
  have "swap16 v div 256 = v mod 256"
    unfolding swap16_def using b by (simp add: div_mult_self3)
  then show ?thesis unfolding store16_def a by simp
qed

lemma split_region:
  assumes "h + 12 \<le> length (p::byte list)"
  obtains A C b0 b1 b2 b3 b4 b5 b6 b7 b8 b9 b10 b11 where
    "p = A @ [b0, b1, b2, b3, b4, b5, b6, b7, b8, b9, b10, b11] @ C" "length A = h"
proof -
  define B where "B = take 12 (drop h p)"
  have l: "length B = 12" using assms by (simp add: B_def)
  have p: "p = take h p @ B @ drop (h + 12) p"
    unfolding B_def by (metis append_take_drop_id drop_drop add.commute)
  have la: "length (take h p) = h" using assms by simp
  from l obtain b0 b1 b2 b3 b4 b5 b6 b7 b8 b9 b10 b11 where
    "B = [b0, b1, b2, b3, b4, b5, b6, b7, b8, b9, b10, b11]"
    by (auto simp: numeral_eq_Suc length_Suc_conv)
  then show ?thesis using that p la by metis
qed

lemma ip4:
  assumes "length (s::byte list) = 4"
  obtains s0 s1 s2 s3 where "s = [s0, s1, s2, s3]"
  using assms by (auto simp: numeral_eq_Suc length_Suc_conv)

lemma transport_checksum_gen:
  assumes hr: "12 \<le> data buf" and ok: "buf_ok buf"
    and ls: "length src_ip = 4" and ld: "length dst_ip = 4"
  shows "transport_checksum protocol buf src_ip dst_ip =
         Some (checksum16 (pseudo_header protocol (len buf) src_ip dst_ip @ window buf), buf)"
proof -
  define h where "h = data buf - 12"
  have dh: "data buf = h + 12" using hr by (simp add: h_def)
  have "h + 12 \<le> length (payload buf)" using ok dh by (simp add: buf_ok_def)
  then obtain A C b0 b1 b2 b3 b4 b5 b6 b7 b8 b9 b10 b11 where
    p: "payload buf = A @ [b0, b1, b2, b3, b4, b5, b6, b7, b8, b9, b10, b11] @ C"
    and la: "length A = h" by (rule split_region)
  obtain s0 s1 s2 s3 where s: "src_ip = [s0, s1, s2, s3]" using ls by (rule ip4)
  obtain t0 t1 t2 t3 where t: "dst_ip = [t0, t1, t2, t3]" using ld by (rule ip4)
  have w: "window buf = take (len buf) C"
    by (simp add: window_def p dh la)
  have b: "buf = \<lparr>payload = A @ [b0, b1, b2, b3, b4, b5, b6, b7, b8, b9, b10, b11] @ C,
                   data = length A + 12, len = len buf\<rparr>"
    using p dh la by (cases buf) simp
  have tk: "\<And>n a0 a1 a2 a3 a4 a5 a6 a7 (X::byte list).
      take (8 + n) (a0 # a1 # a2 # a3 # a4 # a5 # a6 # a7 # X) =
      a0 # a1 # a2 # a3 # a4 # a5 # a6 # a7 # take n X"
    by (simp add: take_Cons')
  have "transport_checksum protocol
          \<lparr>payload = A @ [b0, b1, b2, b3, b4, b5, b6, b7, b8, b9, b10, b11] @ C,
           data = length A + 12, len = len buf\<rparr> src_ip dst_ip =
        Some (checksum16 (pseudo_header protocol (len buf) src_ip dst_ip @ take (len buf) C),
          \<lparr>payload = A @ [b0, b1, b2, b3, b4, b5, b6, b7, b8, b9, b10, b11] @ C,
           data = length A + 12, len = len buf\<rparr>)"
    by (simp add: transport_checksum_def buf_add_header_def buf_remove_header_def Let_def
        memcpy_def store16_swap16 s t window_def pseudo_header_def list_update_append
        nth_append tk)
  then show ?thesis unfolding w b[symmetric] .
qed

section \<open>Properties of ip_fragment_out and ip_in\<close>

lemma split_region20:
  assumes "h + 20 \<le> length (p::byte list)"
  obtains A C b0 b1 b2 b3 b4 b5 b6 b7 b8 b9 b10 b11 b12 b13 b14 b15 b16 b17 b18 b19 where
    "p = A @ [b0, b1, b2, b3, b4, b5, b6, b7, b8, b9, b10, b11, b12, b13, b14, b15, b16, b17, b18, b19] @ C"
    "length A = h"
proof -
  define B where "B = take 20 (drop h p)"
  have l: "length B = 20" using assms by (simp add: B_def)
  have p: "p = take h p @ B @ drop (h + 20) p"
    unfolding B_def by (metis append_take_drop_id drop_drop add.commute)
  have la: "length (take h p) = h" using assms by simp
  from l obtain b0 b1 b2 b3 b4 b5 b6 b7 b8 b9 b10 b11 b12 b13 b14 b15 b16 b17 b18 b19 where
    "B = [b0, b1, b2, b3, b4, b5, b6, b7, b8, b9, b10, b11, b12, b13, b14, b15, b16, b17, b18, b19]"
    by (auto simp: numeral_eq_Suc length_Suc_conv)
  then show ?thesis using that p la by metis
qed

lemma version_hdr_len_byte: "set_hdr_len (set_version b 4) 5 = 0x45"
proof -
  define r where "r = unat b mod 16"
  have r: "r < 16" by (simp add: r_def)
  have e: "(4 mod 16) * 16 + r = 64 + r" by simp
  have "64 + r < 256" using r by simp
  then have u: "unat (of_nat (64 + r) :: byte) = 64 + r" by (rule byte_of_nat)
  have d: "(64 + r) div 16 = 4" using r by simp
  have "set_hdr_len (set_version b 4) 5 = of_nat ((unat (of_nat (64 + r) :: byte) div 16) * 16 + 5 mod 16)"
    unfolding set_hdr_len_def set_version_def r_def[symmetric] e ..
  also have "\<dots> = of_nat (4 * 16 + 5 mod 16)" unfolding u d ..
  also have "\<dots> = 0x45" by simp
  finally show ?thesis .
qed

lemma byte45: "get_version 0x45 = 4" "get_hdr_len 0x45 = 5"
  by (simp_all add: get_version_def get_hdr_len_def)


lemma checksum16_lt: "checksum16 d < 65536"
  by (simp add: checksum16_def Let_def)

lemma u16_digits: "c < 65536 \<Longrightarrow> c mod 256 + 256 * (c div 256 mod 256) = (c::nat)"
proof -
  assume "c < 65536"
  then have "c div 256 < 256" by (simp add: less_mult_imp_div_less)
  then have "c div 256 mod 256 = c div 256" by simp
  then show ?thesis by simp
qed

lemma ip_fragment_out_explicit:
  fixes A C :: "byte list"
  shows "ip_fragment_out [s0, s1, s2, s3] MF
          \<lparr>payload = A @ [b0, b1, b2, b3, b4, b5, b6, b7, b8, b9, b10, b11, b12, b13, b14, b15, b16, b17, b18, b19] @ C, data = length A + 20, len = n\<rparr> [t0, t1, t2, t3]
          protocol ident offset mf =
        Some \<lparr>payload = A @ ip_header [s0, s1, s2, s3] MF (n + 20) [t0, t1, t2, t3] protocol ident offset mf @ C,
              data = length A, len = n + 20\<rparr>"
  apply (simp add: ip_fragment_out_def buf_add_header_def
        IP_HDR_LEN_def IP_HDR_LEN_PER_BYTE_def IP_VERSION_4_def IP_DEFAULT_TOS_def
        IP_HDR_OFFSET_PER_BYTE_def IP_DEFAULT_TTL_def NET_IP_LEN_def
        Let_def store16_swap16  memcpy_def
        version_hdr_len_byte ip_header_def)
  apply (simp add: store16_def)
  done


lemma upd_mid: "j < length B \<Longrightarrow> (A @ B @ C)[length A + j := v] = A @ B[j := v] @ C"
  by (simp add: list_update_append)

lemma nth_mid: "j < length B \<Longrightarrow> (A @ B @ C) ! (length A + j) = B ! j"
  by (simp add: nth_append)

lemma nth_mid0: "0 < length B \<Longrightarrow> (A @ B @ C) ! (length A) = B ! 0"
  using nth_mid[of 0 B A C] by simp

lemma store16_mid:
  "j + 1 < length B \<Longrightarrow> store16 (A @ B @ C) (length A + j) v = A @ store16 B j v @ C"
proof -
  assume h: "j + 1 < length B"
  have "store16 (A @ B @ C) (length A + j) v =
        ((A @ B @ C)[length A + j := of_nat (v mod 256)])[length A + (j + 1) := of_nat ((v div 256) mod 256)]"
    by (simp add: store16_def add.assoc)
  also have "\<dots> = (A @ B[j := of_nat (v mod 256)] @ C)[length A + (j + 1) := of_nat ((v div 256) mod 256)]"
    using h by (subst upd_mid) simp_all
  also have "\<dots> = A @ (B[j := of_nat (v mod 256)])[j + 1 := of_nat ((v div 256) mod 256)] @ C"
    using h by (subst upd_mid) simp_all
  finally show ?thesis by (simp add: store16_def)
qed

lemma load16_mid: "j + 1 < length B \<Longrightarrow> load16 (A @ B @ C) (length A + j) = load16 B j"
proof -
  assume h: "j + 1 < length B"
  have a: "(A @ B @ C) ! (length A + j) = B ! j" using h by (intro nth_mid) simp
  have "(A @ B @ C) ! (length A + (j + 1)) = B ! (j + 1)" using h by (intro nth_mid)
  then show ?thesis using a by (simp add: load16_def add.assoc)
qed

lemma load16_store16: "j + 1 < length B \<Longrightarrow> v < 65536 \<Longrightarrow> load16 (store16 B j v) j = v"
proof -
  assume h: "j + 1 < length B" and v: "v < 65536"
  have "v div 256 < 256" using v by (simp add: less_mult_imp_div_less)
  then have a: "unat (of_nat ((v div 256) mod 256) :: byte) = v div 256" by (simp add: byte_of_nat)
  have b: "unat (of_nat (v mod 256) :: byte) = v mod 256" by (simp add: byte_of_nat)
  show ?thesis using h a b by (simp add: load16_def store16_def)
qed

lemma load16_store16_other:
  "j + 1 < k \<or> k + 1 < j \<Longrightarrow> load16 (store16 B j v) k = load16 B k"
  by (auto simp: load16_def store16_def)

lemma swap16_lt: "swap16 v < 65536"
proof -
  have "v mod 256 \<le> 255" by simp
  then have "(v mod 256) * 256 \<le> 255 * 256" by (rule mult_le_mono1)
  moreover have "(v div 256) mod 256 < 256" by simp
  ultimately show ?thesis by (simp add: swap16_def)
qed

lemma swap16_swap16: "v < 65536 \<Longrightarrow> swap16 (swap16 v) = v"
proof -
  assume "v < 65536"
  then have "v \<le> 65535" by simp
  then obtain q r where v: "v = 256 * q + r" and q: "q < 256" and r: "r < 256"
    by (rule digits16)
  show ?thesis unfolding v by (simp only: swap16_digits[OF r q] swap16_digits[OF q r])
qed

lemma ip_check_built:
  fixes A C :: "byte list"
  assumes n: "n + 20 < 65536"
    and H_def: "H = ip_header [s0, s1, s2, s3] MF (n + 20) [t0, t1, t2, t3] protocol ident offset mf"
  shows "ip_check \<lparr>payload = A @ H @ C, data = length A, len = n + 20\<rparr> =
         Inr (\<lparr>payload = A @ H @ C, data = length A, len = n + 20\<rparr>, 20, n + 20)"
proof -
  define fl where "fl = (if mf \<noteq> 0 then MF mod 65536 else 0) OR (offset div 8)"
  define hdr0 :: "byte list" where
    "hdr0 = [0x45, 0, of_nat (((n + 20) div 256) mod 256), of_nat ((n + 20) mod 256),
             of_nat ((ident div 256) mod 256), of_nat (ident mod 256),
             of_nat ((fl div 256) mod 256), of_nat (fl mod 256),
             64, of_nat protocol, 0, 0, s0, s1, s2, s3, t0, t1, t2, t3]"
  define c where "c = checksum16 hdr0"
  have H: "H = store16 hdr0 10 c"
    unfolding H_def ip_header_def c_def hdr0_def fl_def by (simp add: Let_def)
  have cl: "c < 65536" unfolding c_def by (rule checksum16_lt)
  have l0: "length hdr0 = 20" by (simp add: hdr0_def)
  have lH: "length H = 20" by (simp add: H store16_def l0)
  have z: "store16 hdr0 10 0 = hdr0" by (simp add: hdr0_def store16_def)
  have H0: "store16 H 10 0 = hdr0" unfolding H by (simp only: store16_twice z)
  have Hc: "load16 H 10 = c" unfolding H using cl by (intro load16_store16) (simp_all add: l0)
  have Hb: "H ! 0 = 0x45" unfolding H by (simp add: store16_def hdr0_def)
  have "load16 H 2 = load16 hdr0 2" unfolding H by (rule load16_store16_other) simp
  also have "\<dots> = load16 (store16 hdr0 2 (swap16 (n + 20))) 2"
    by (simp add: store16_swap16 hdr0_def)
  also have "\<dots> = swap16 (n + 20)" by (intro load16_store16) (simp_all add: l0 swap16_lt)
  finally have Ht: "swap16 (load16 H 2) = n + 20" using n by (simp add: swap16_swap16)
  have pb: "(A @ H @ C) ! length A = 0x45" using Hb lH by (simp add: nth_mid0)
  have pt: "load16 (A @ H @ C) (length A + 2) = load16 H 2" by (rule load16_mid) (simp add: lH)
  have pt': "load16 (A @ H @ C) (Suc (Suc (length A))) = load16 H 2" using pt by simp
  have pc: "load16 (A @ H @ C) (length A + 10) = c" unfolding Hc[symmetric] by (rule load16_mid) (simp add: lH)
  have pz: "store16 (A @ H @ C) (length A + 10) 0 = A @ hdr0 @ C"
    unfolding H0[symmetric] by (rule store16_mid) (simp add: lH)
  have pr: "store16 (A @ hdr0 @ C) (length A + 10) c = A @ H @ C"
    unfolding H by (rule store16_mid) (simp add: l0)
  show ?thesis
    by (simp add: ip_check_def Let_def IP_MIN_HDR_LEN_def IP_VERSION_4_def IP_HDR_LEN_def
        IP_HDR_LEN_PER_BYTE_def pb pt pt' pc pz pr byte45 Ht l0 c_def[symmetric])
qed


lemma ip_fragment_out_built:
  assumes hr: "20 \<le> data buf" and ok: "buf_ok buf"
    and ls: "length net_if_ip = 4" and ld: "length ip = 4"
  obtains A H C where
    "ip_fragment_out net_if_ip MF buf ip protocol ident offset mf =
       Some \<lparr>payload = A @ H @ C, data = length A, len = len buf + 20\<rparr>"
    "H = ip_header net_if_ip MF (len buf + 20) ip protocol ident offset mf"
    "window buf = take (len buf) C"
proof -
  define h where "h = data buf - 20"
  have dh: "data buf = h + 20" using hr by (simp add: h_def)
  have "h + 20 \<le> length (payload buf)" using ok dh by (simp add: buf_ok_def)
  then obtain A C b0 b1 b2 b3 b4 b5 b6 b7 b8 b9 b10 b11 b12 b13 b14 b15 b16 b17 b18 b19 where
    p: "payload buf = A @ [b0, b1, b2, b3, b4, b5, b6, b7, b8, b9, b10, b11, b12, b13, b14, b15, b16, b17, b18, b19] @ C"
    and la: "length A = h" by (rule split_region20)
  obtain s0 s1 s2 s3 where s: "net_if_ip = [s0, s1, s2, s3]" using ls by (rule ip4)
  obtain t0 t1 t2 t3 where t: "ip = [t0, t1, t2, t3]" using ld by (rule ip4)
  have b: "buf = \<lparr>payload = A @ [b0, b1, b2, b3, b4, b5, b6, b7, b8, b9, b10, b11, b12, b13, b14, b15, b16, b17, b18, b19] @ C,
                   data = length A + 20, len = len buf\<rparr>"
    using p dh la by (cases buf) simp
  have w: "window buf = take (len buf) C" by (simp add: window_def p dh la)
  have "ip_fragment_out net_if_ip MF buf ip protocol ident offset mf =
        Some \<lparr>payload = A @ ip_header net_if_ip MF (len buf + 20) ip protocol ident offset mf @ C,
              data = length A, len = len buf + 20\<rparr>"
    by (subst b) (simp only: s t ip_fragment_out_explicit)
  then show ?thesis using that w by blast
qed

lemma ip_fragment_out_passes_gen:
  assumes hr: "20 \<le> data buf" and ok: "buf_ok buf"
    and ls: "length net_if_ip = 4" and ld: "length ip = 4"
    and n: "len buf + 20 < 65536"
  shows "\<exists>dgram. ip_fragment_out net_if_ip MF buf ip protocol ident offset mf = Some dgram \<and>
           ip_check dgram = Inr (dgram, 20, len buf + 20)"
proof -
  obtain A H C where
    a: "ip_fragment_out net_if_ip MF buf ip protocol ident offset mf =
       Some \<lparr>payload = A @ H @ C, data = length A, len = len buf + 20\<rparr>"
    and H: "H = ip_header net_if_ip MF (len buf + 20) ip protocol ident offset mf"
    using hr ok ls ld by (rule ip_fragment_out_built)
  obtain s0 s1 s2 s3 where s: "net_if_ip = [s0, s1, s2, s3]" using ls by (rule ip4)
  obtain t0 t1 t2 t3 where t: "ip = [t0, t1, t2, t3]" using ld by (rule ip4)
  have "ip_check \<lparr>payload = A @ H @ C, data = length A, len = len buf + 20\<rparr> =
        Inr (\<lparr>payload = A @ H @ C, data = length A, len = len buf + 20\<rparr>, 20, len buf + 20)"
    using n H unfolding s t by (rule ip_check_built)
  then show ?thesis using a by blast
qed

lemma ip_in_after_check:
  assumes "ip_check dgram = Inr (dgram', hl, tot)"
    and "ip_in net_if_ip room net_in dgram = Some (Dropped r, b)"
  shows "r = Drop_dst"
  using assms
  apply (auto simp: ip_in_def Let_def bind_eq_Some_conv split: if_splits prod.splits)
   apply (metis surj_pair)+
  done

lemma ip_check_checksum_drop:
  assumes "ip_check buf = Inl (Drop_checksum, buf')"
  shows "buf' = buf\<lparr>payload := store16 (payload buf) (data buf + 10) 0\<rparr> \<and> 20 \<le> len buf"
  using assms
  by (auto simp: ip_check_def Let_def IP_MIN_HDR_LEN_def split: if_splits)

lemma ip_in_dropped:
  assumes "ip_in net_if_ip room net_in buf = Some (Dropped r, buf')"
  shows "ip_check buf = Inl (r, buf') \<or> r = Drop_dst"
proof (cases "ip_check buf")
  case (Inl a)
  then show ?thesis using assms by (cases a) (simp add: ip_in_def)
next
  case (Inr b)
  obtain d hl tot where "b = (d, hl, tot)" by (cases b) auto
  then have "ip_check buf = Inr (d, hl, tot)" using Inr by simp
  then have "r = Drop_dst" using assms by (rule ip_in_after_check)
  then show ?thesis ..
qed

lemma ip_in_checksum_drop_gen:
  assumes r: "ip_in net_if_ip room net_in buf = Some (Dropped Drop_checksum, buf')"
    and ok: "buf_ok buf"
  shows "buf' = buf\<lparr>payload := store16 (payload buf) (data buf + 10) 0\<rparr> \<and>
         load16 (payload buf') (data buf + 10) = 0 \<and>
         (load16 (payload buf) (data buf + 10) \<noteq> 0 \<longrightarrow> payload buf' \<noteq> payload buf)"
proof -
  have "ip_check buf = Inl (Drop_checksum, buf')" using ip_in_dropped[OF r] by simp
  then have b: "buf' = buf\<lparr>payload := store16 (payload buf) (data buf + 10) 0\<rparr>"
    and l: "20 \<le> len buf" using ip_check_checksum_drop by blast+
  have k: "(data buf + 10) + 1 < length (payload buf)" using ok l by (simp add: buf_ok_def)
  have z: "load16 (payload buf') (data buf + 10) = 0"
    unfolding b using k by (simp add: load16_store16)
  then show ?thesis using b by auto
qed

text \<open>
  Claim C2, as the spec states it, for a region of any length: \<open>checksum16\<close> returns
  the complement of the folded sum of the 16-bit words.  On 131076 bytes \<open>0xFF\<close> the
  32-bit accumulator of the code wraps around (65538 words \<open>0xFFFF\<close> add up to
  \<open>0x10000FFFE\<close>, kept as \<open>0xFFFE\<close>): the code returns 1 where the spec's sum, with
  no carry lost, gives 0.
\<close>

theorem checksum16_any_length_counterexample:
  "checksum16 (replicate 131076 255) \<noteq> swap16 (checksum16_spec (replicate 131076 255))"
  using cex_ff by (simp add: swap16_def)

text \<open>
  Claim C2, amended: for every region of at most 131074 bytes (65537 words, the most whose
  sum fits 32 bits whatever the bytes), \<open>checksum16\<close> computes the spec's value: the
  sum of the 16-bit words with an odd trailing byte as the high byte of a last word,
  every carry folded back, complemented.  The spec's value is in the order of the wire;
  the \<open>uint16_t\<close> that the code returns is that value with its two bytes exchanged,
  which the callers store with no \<open>swap16\<close>, so that the bytes in memory are those of
  the spec's value, high byte first.  The function is total: it is defined for every
  length, zero included.
\<close>

theorem checksum16_refines_spec:
  "length d \<le> 131074 \<Longrightarrow> checksum16 d = swap16 (checksum16_spec d)"
  by (rule checksum16_refines_gen)

theorem checksum16_refines_spec_witness:
  "length [0x45, 0x00, 0x01 :: byte] \<le> 131074 \<and>
   checksum16 [0x45, 0x00, 0x01] = swap16 (checksum16_spec [0x45, 0x00, 0x01]) \<and>
   checksum16 [0x45, 0x00, 0x01] = 0xFFB9 \<and> checksum16 [] = 0xFFFF"
proof -
  have l: "length [0x45, 0x00, 0x01 :: byte] \<le> 131074" by simp
  have a: "checksum16 [0x45, 0x00, 0x01] = 0xFFB9"
    by (simp add: checksum16_closed host_total_words norm16_def)
  have b: "checksum16 [] = 0xFFFF"
    by (simp add: checksum16_closed host_total_words norm16_def)
  show ?thesis using l checksum16_refines_spec [OF l] a b by simp
qed

text \<open>
  Claim C8: for every byte sequence \<open>d\<close> with a 16-bit checksum field, writing
  \<open>checksum16\<close> of \<open>d\<close> with the field zeroed into the field and recomputing
  \<open>checksum16\<close> over the region yields 0.  The field is one of the 16-bit words that
  \<open>checksum16\<close> reads, at the even byte offset \<open>2 * k\<close>, as every checksum field of
  the headers is.  The property holds at every length: no carry that the first pass
  loses is seen by the second.
\<close>

theorem checksum16_embed_zero:
  "2 * k + 2 \<le> length d \<Longrightarrow>
   checksum16 (store16 d (2 * k) (checksum16 (store16 d (2 * k) 0))) = 0"
  by (rule checksum16_embed_gen)

theorem checksum16_embed_zero_witness:
  "2 * 1 + 2 \<le> length [0x45, 0x00, 0x12, 0x34, 0x01 :: byte] \<and>
   checksum16 (store16 [0x45, 0x00, 0x12, 0x34, 0x01] (2 * 1)
     (checksum16 (store16 [0x45, 0x00, 0x12, 0x34, 0x01] (2 * 1) 0))) = 0"
proof -
  have l: "2 * 1 + 2 \<le> length [0x45, 0x00, 0x12, 0x34, 0x01 :: byte]" by simp
  show ?thesis using l checksum16_embed_zero [OF l] by simp
qed

text \<open>
  Claim C7: for every protocol number, segment buffer, source and destination address,
  \<open>transport_checksum\<close> returns \<open>checksum16\<close> of the 12-byte pseudo-header
  followed by the segment, and the buffer on return is the buffer before the call: the
  same window offset, the same length and the same bytes in the whole region, the twelve
  bytes overwritten by the pseudo-header included.  The buffer is a well-formed one with
  the twelve bytes in front of its window that \<open>buf_add_header\<close> takes, and the
  addresses have four bytes.
\<close>

theorem transport_checksum_restores_buffer:
  "12 \<le> data buf \<Longrightarrow> buf_ok buf \<Longrightarrow> length src_ip = 4 \<Longrightarrow> length dst_ip = 4 \<Longrightarrow>
   transport_checksum protocol buf src_ip dst_ip =
     Some (checksum16 (pseudo_header protocol (len buf) src_ip dst_ip @ window buf), buf)"
  by (rule transport_checksum_gen)

theorem transport_checksum_restores_buffer_witness:
  "12 \<le> data \<lparr>payload = replicate 12 0xAA @ [0x30, 0x39, 0x00, 0x35, 0x00, 0x09, 0x00, 0x00, 0x41],
              data = 12, len = 9\<rparr> \<and>
   buf_ok \<lparr>payload = replicate 12 0xAA @ [0x30, 0x39, 0x00, 0x35, 0x00, 0x09, 0x00, 0x00, 0x41],
           data = 12, len = 9\<rparr> \<and>
   length [10, 0, 0, 2 :: byte] = 4 \<and> length [10, 0, 0, 1 :: byte] = 4 \<and>
   transport_checksum 17
     \<lparr>payload = replicate 12 0xAA @ [0x30, 0x39, 0x00, 0x35, 0x00, 0x09, 0x00, 0x00, 0x41],
      data = 12, len = 9\<rparr> [10, 0, 0, 2] [10, 0, 0, 1] =
     Some (checksum16 ([10, 0, 0, 2, 10, 0, 0, 1, 0, 17, 0, 9] @
                       [0x30, 0x39, 0x00, 0x35, 0x00, 0x09, 0x00, 0x00, 0x41]),
           \<lparr>payload = replicate 12 0xAA @ [0x30, 0x39, 0x00, 0x35, 0x00, 0x09, 0x00, 0x00, 0x41],
            data = 12, len = 9\<rparr>)"
  using transport_checksum_restores_buffer
    [of "\<lparr>payload = replicate 12 0xAA @ [0x30, 0x39, 0x00, 0x35, 0x00, 0x09, 0x00, 0x00, 0x41],
          data = 12, len = 9\<rparr>" "[10, 0, 0, 2]" "[10, 0, 0, 1]" 17]
  by (simp add: buf_ok_def pseudo_header_def window_def)

text \<open>
  Claim C5, as the spec states it, for every payload: a datagram built by
  \<open>ip_fragment_out\<close> passes the validation of \<open>ip_in\<close>.  On a payload of 65516
  bytes the datagram has 65536 bytes; the 16-bit field \<open>total_len16\<close> keeps 0, and
  \<open>ip_in\<close> drops the datagram at the check of the total length against the header
  length.
\<close>

theorem ip_fragment_out_any_payload_counterexample:
  "ip_fragment_out [10, 0, 0, 1] 8192
     \<lparr>payload = replicate 20 0 @ replicate 65516 0, data = 20, len = 65516\<rparr>
     [10, 0, 0, 2] 17 0 0 0 =
     Some \<lparr>payload = ip_header [10, 0, 0, 1] 8192 65536 [10, 0, 0, 2] 17 0 0 0 @
                      replicate 65516 0, data = 0, len = 65536\<rparr> \<and>
   ip_check \<lparr>payload = ip_header [10, 0, 0, 1] 8192 65536 [10, 0, 0, 2] 17 0 0 0 @
                      replicate 65516 0, data = 0, len = 65536\<rparr> =
     Inl (Drop_total_len,
          \<lparr>payload = ip_header [10, 0, 0, 1] 8192 65536 [10, 0, 0, 2] 17 0 0 0 @
                      replicate 65516 0, data = 0, len = 65536\<rparr>)"
proof -
  have r: "replicate 20 (0::byte) = [0, 0, 0, 0, 0, 0, 0, 0, 0, 0, 0, 0, 0, 0, 0, 0, 0, 0, 0, 0]"
    by (simp add: numeral_eq_Suc)
  have a: "ip_fragment_out [10, 0, 0, 1] 8192
     \<lparr>payload = replicate 20 0 @ replicate 65516 0, data = 20, len = 65516\<rparr>
     [10, 0, 0, 2] 17 0 0 0 =
     Some \<lparr>payload = ip_header [10, 0, 0, 1] 8192 65536 [10, 0, 0, 2] 17 0 0 0 @
                      replicate 65516 0, data = 0, len = 65536\<rparr>"
    using ip_fragment_out_explicit[of 10 0 0 1 8192 "[]" 0 0 0 0 0 0 0 0 0 0 0 0 0 0 0 0 0 0 0 0
        "replicate 65516 0" 65516 10 0 0 2 17 0 0 0]
    unfolding r by simp
  have b: "ip_check \<lparr>payload = ip_header [10, 0, 0, 1] 8192 65536 [10, 0, 0, 2] 17 0 0 0 @
                      replicate 65516 0, data = 0, len = 65536\<rparr> =
     Inl (Drop_total_len,
          \<lparr>payload = ip_header [10, 0, 0, 1] 8192 65536 [10, 0, 0, 2] 17 0 0 0 @
                      replicate 65516 0, data = 0, len = 65536\<rparr>)"
    by (simp add: ip_check_def ip_header_def Let_def store16_def load16_def swap16_def
        IP_MIN_HDR_LEN_def IP_VERSION_4_def IP_HDR_LEN_def IP_HDR_LEN_PER_BYTE_def
        get_version_def get_hdr_len_def)
  show ?thesis using a b by simp
qed

text \<open>
  Claim C5, amended: for every payload of at most 65515 bytes (so that the datagram's
  length fits the 16-bit total length) and every destination, the datagram built by
  \<open>ip_fragment_out\<close>, presented unmodified to \<open>ip_in\<close>, passes the checks of the
  length, the version, the header length, the total length and the header checksum:
  \<open>ip_check\<close> returns the datagram unchanged, with a header of 20 bytes and the
  datagram's length as total length.  The buffer is well formed, with the 20 bytes in
  front of the payload that \<open>buf_add_header\<close> takes, and addresses have four bytes.
\<close>

theorem ip_fragment_out_passes_ip_in:
  "20 \<le> data buf \<Longrightarrow> buf_ok buf \<Longrightarrow> length net_if_ip = 4 \<Longrightarrow> length ip = 4 \<Longrightarrow>
   len buf + 20 < 65536 \<Longrightarrow>
   \<exists>dgram. ip_fragment_out net_if_ip IP_MORE_FRAGMENT buf ip protocol ident offset mf =
             Some dgram \<and>
           ip_check dgram = Inr (dgram, 20, len buf + 20)"
  by (rule ip_fragment_out_passes_gen)

theorem ip_fragment_out_passes_ip_in_witness:
  "20 \<le> data \<lparr>payload = replicate 20 0 @ [0x50, 0x49, 0x4E, 0x47], data = 20, len = 4\<rparr> \<and>
   buf_ok \<lparr>payload = replicate 20 0 @ [0x50, 0x49, 0x4E, 0x47], data = 20, len = 4\<rparr> \<and>
   length [10, 0, 0, 1 :: byte] = 4 \<and> length [10, 0, 0, 2 :: byte] = 4 \<and>
   len \<lparr>payload = replicate 20 0 @ [0x50, 0x49, 0x4E, 0x47], data = 20, len = 4\<rparr> + 20 < 65536 \<and>
   (\<exists>dgram. ip_fragment_out [10, 0, 0, 1] 8192
              \<lparr>payload = replicate 20 0 @ [0x50, 0x49, 0x4E, 0x47], data = 20, len = 4\<rparr>
              [10, 0, 0, 2] 17 7 0 0 = Some dgram \<and>
            ip_check dgram = Inr (dgram, 20, 24))"
  using ip_fragment_out_passes_ip_in
    [of "\<lparr>payload = replicate 20 0 @ [0x50, 0x49, 0x4E, 0x47], data = 20, len = 4\<rparr>"
        "[10, 0, 0, 1]" "[10, 0, 0, 2]" 8192 17 7 0 0]
  by (simp add: buf_ok_def)

text \<open>
  Claim C9: for every received IP datagram whose header checksum verification fails,
  \<open>ip_in\<close> returns with the buffer changed: the checksum field holds zero, and
  nothing else differs from the buffer that was passed in.  The field is restored only
  on the path where the verification succeeds, so the bytes differ from the received
  ones whenever the received field was not zero.
\<close>

theorem ip_in_checksum_drop_zeroes_field:
  "ip_in net_if_ip room net_in buf = Some (Dropped Drop_checksum, buf') \<Longrightarrow> buf_ok buf \<Longrightarrow>
   buf' = buf\<lparr>payload := store16 (payload buf) (data buf + 10) 0\<rparr> \<and>
   load16 (payload buf') (data buf + 10) = 0 \<and>
   (load16 (payload buf) (data buf + 10) \<noteq> 0 \<longrightarrow> payload buf' \<noteq> payload buf)"
  by (rule ip_in_checksum_drop_gen)

theorem ip_in_checksum_drop_zeroes_field_witness:
  "ip_in [10, 0, 0, 1] 0 net_in_none bad_checksum_datagram =
     Some (Dropped Drop_checksum, bad_checksum_datagram_dropped) \<and>
   buf_ok bad_checksum_datagram \<and>
   bad_checksum_datagram_dropped =
     bad_checksum_datagram
       \<lparr>payload := store16 (payload bad_checksum_datagram) (data bad_checksum_datagram + 10) 0\<rparr> \<and>
   load16 (payload bad_checksum_datagram_dropped) (data bad_checksum_datagram + 10) = 0 \<and>
   load16 (payload bad_checksum_datagram) (data bad_checksum_datagram + 10) \<noteq> 0 \<and>
   payload bad_checksum_datagram_dropped \<noteq> payload bad_checksum_datagram"
proof -
  have h: "ip_in [10, 0, 0, 1] 0 net_in_none bad_checksum_datagram =
     Some (Dropped Drop_checksum, bad_checksum_datagram_dropped)"
    by (simp add: bad_checksum_datagram_def bad_checksum_datagram_dropped_def
        ip_in_def ip_check_def Let_def store16_def load16_def swap16_def
        IP_MIN_HDR_LEN_def IP_VERSION_4_def IP_HDR_LEN_def IP_HDR_LEN_PER_BYTE_def
        get_version_def get_hdr_len_def checksum16_closed host_total_words norm16_def)
  have k: "buf_ok bad_checksum_datagram"
    by (simp add: buf_ok_def bad_checksum_datagram_def)
  have n: "load16 (payload bad_checksum_datagram) (data bad_checksum_datagram + 10) \<noteq> 0"
    by (simp add: bad_checksum_datagram_def load16_def)
  show ?thesis
    using h k n ip_in_checksum_drop_zeroes_field [OF h k] by blast
qed

end
